theory Spec2Isabelle
  imports Main "HOL-Library.Word"
begin

unbundle bit_operations_syntax

section \<open>Calls, events and sequential runs\<close>

text \<open>
  The three queues of the repository (\<^verbatim>\<open>spsc_lockfree_queue.hpp\<close>,
  \<^verbatim>\<open>locked_queue.hpp\<close>, \<^verbatim>\<open>double_buffer_spsc.hpp\<close>) are modelled sequentially: every
  member function is a function from the object's state to its return value and the new
  state. Atomic loads and stores become plain reads and writes of a field, the mutex of
  \<^verbatim>\<open>LockedQueue\<close> disappears. \<^verbatim>\<open>size_t\<close> values are natural numbers: every index the
  code computes stays below the size of the storage it indexes, so no 64-bit wrap-around
  is reachable in the functions modelled here.

  \<^verbatim>\<open>bool dequeue(T& item)\<close> writes through a reference. The model takes the value the
  caller's variable holds before the call and returns the value it holds afterwards.
  \<^verbatim>\<open>std::move\<close> out of a slot is modelled as a copy: the moved-from slot is never read
  again before it is overwritten or cleared.
\<close>

datatype 'a call = Enqueue 'a | Dequeue

datatype 'a db_call = DBEnqueue 'a | DBDequeue | SwapBuffers | BufferWasSwapped

text \<open>
  An event records one finished call: the value returned and, for \<^verbatim>\<open>enqueue\<close>, the
  argument passed, for \<^verbatim>\<open>dequeue\<close>, the contents of the caller's output variable after
  the call.
\<close>

datatype 'a event =
    EnqueueRet bool 'a
  | DequeueRet bool 'a
  | SwapRet
  | WasSwappedRet bool

fun run :: "('c \<Rightarrow> 's \<Rightarrow> 'e \<times> 's) \<Rightarrow> 'c list \<Rightarrow> 's \<Rightarrow> 'e list \<times> 's" where
  "run step [] s = ([], s)"
| "run step (c # cs) s =
     (case step c s of (e, s') \<Rightarrow>
        (case run step cs s' of (es, s'') \<Rightarrow> (e # es, s'')))"

fun enqueued :: "'a event list \<Rightarrow> 'a list" where
  "enqueued [] = []"
| "enqueued (EnqueueRet ok x # es) = (if ok then x # enqueued es else enqueued es)"
| "enqueued (_ # es) = enqueued es"

fun dequeued :: "'a event list \<Rightarrow> 'a list" where
  "dequeued [] = []"
| "dequeued (DequeueRet ok x # es) = (if ok then x # dequeued es else dequeued es)"
| "dequeued (_ # es) = dequeued es"

section \<open>SPSCLockFreeQueue\<close>

text \<open>
  \<^verbatim>\<open>template<typename T, size_t Size> class SPSCLockFreeQueue\<close>. The template
  parameter \<open>Size\<close> is an argument of every function of the model. The class compiles
  when the \<^verbatim>\<open>static_assert((Size & (Size - 1)) == 0)\<close> holds and the array
  \<^verbatim>\<open>T buffer[Size]\<close> has a positive length.
\<close>

definition Size_ok :: "nat \<Rightarrow> bool" where
  "Size_ok Size \<longleftrightarrow> Size AND (Size - 1) = 0 \<and> 0 < Size"

definition MASK :: "nat \<Rightarrow> nat" where
  "MASK Size = Size - 1"

record 'a SPSCLockFreeQueue =
  head :: nat
  tail :: nat
  buffer :: "'a list"

text \<open>
  The constructor sets both indices to zero and leaves the array default-initialised:
  \<open>mem\<close> is whatever the \<open>Size\<close> slots hold then.
\<close>

definition SPSC_new :: "'a list \<Rightarrow> 'a SPSCLockFreeQueue" where
  "SPSC_new mem = \<lparr>head = 0, tail = 0, buffer = mem\<rparr>"

definition SPSC_enqueue ::
  "nat \<Rightarrow> 'a SPSCLockFreeQueue \<Rightarrow> 'a \<Rightarrow> bool \<times> 'a SPSCLockFreeQueue" where
  "SPSC_enqueue Size q item =
     (let current_tail = tail q;
          next_tail = (current_tail + 1) AND MASK Size
      in if next_tail = head q then (False, q)
         else (True, q\<lparr>buffer := (buffer q)[current_tail := item], tail := next_tail\<rparr>))"

definition SPSC_dequeue ::
  "nat \<Rightarrow> 'a SPSCLockFreeQueue \<Rightarrow> 'a \<Rightarrow> bool \<times> 'a \<times> 'a SPSCLockFreeQueue" where
  "SPSC_dequeue Size q item =
     (let current_head = head q
      in if current_head = tail q then (False, item, q)
         else (True, buffer q ! current_head,
               q\<lparr>head := (current_head + 1) AND MASK Size\<rparr>))"

definition SPSC_empty :: "'a SPSCLockFreeQueue \<Rightarrow> bool" where
  "SPSC_empty q \<longleftrightarrow> head q = tail q"

definition SPSC_full :: "nat \<Rightarrow> 'a SPSCLockFreeQueue \<Rightarrow> bool" where
  "SPSC_full Size q \<longleftrightarrow>
     (let current_tail = tail q;
          next_tail = (current_tail + 1) AND MASK Size
      in next_tail = head q)"

definition SPSC_capacity :: "nat \<Rightarrow> nat" where
  "SPSC_capacity Size = Size - 1"

fun SPSC_call ::
  "nat \<Rightarrow> 'a call \<Rightarrow> 'a SPSCLockFreeQueue \<times> 'a \<Rightarrow> 'a event \<times> ('a SPSCLockFreeQueue \<times> 'a)" where
  "SPSC_call Size (Enqueue x) (q, item) =
     (case SPSC_enqueue Size q x of (ok, q') \<Rightarrow> (EnqueueRet ok x, (q', item)))"
| "SPSC_call Size Dequeue (q, item) =
     (case SPSC_dequeue Size q item of (ok, item', q') \<Rightarrow> (DequeueRet ok item', (q', item')))"

text \<open>
  The elements the ring holds, oldest first: the slots from \<open>head\<close> up to, not
  including, \<open>tail\<close>, wrapping at \<open>Size\<close>.
\<close>

definition SPSC_count :: "nat \<Rightarrow> 'a SPSCLockFreeQueue \<Rightarrow> nat" where
  "SPSC_count Size q = (tail q + Size - head q) mod Size"

definition SPSC_contents :: "nat \<Rightarrow> 'a SPSCLockFreeQueue \<Rightarrow> 'a list" where
  "SPSC_contents Size q =
     map (\<lambda>i. buffer q ! ((head q + i) mod Size)) [0..<SPSC_count Size q]"

definition SPSC_inv :: "nat \<Rightarrow> 'a SPSCLockFreeQueue \<Rightarrow> bool" where
  "SPSC_inv Size q \<longleftrightarrow> head q < Size \<and> tail q < Size \<and> length (buffer q) = Size"

section \<open>LockedQueue\<close>

text \<open>
  \<^verbatim>\<open>std::queue<T> queue_\<close> is the list of its elements, front first; \<^verbatim>\<open>push\<close>
  appends at the back, \<^verbatim>\<open>front\<close> and \<^verbatim>\<open>pop\<close> read and remove the first element.
\<close>

record 'a LockedQueue =
  lq_queue :: "'a list"
  lq_max_size :: nat

text \<open>
  The ring seen as a bounded list: its contents, with its usable capacity as bound. The
  ring is shown below to answer every call as \<^verbatim>\<open>LockedQueue\<close> does on this list.
\<close>

definition SPSC_abs :: "nat \<Rightarrow> 'a SPSCLockFreeQueue \<Rightarrow> 'a LockedQueue" where
  "SPSC_abs Size q = \<lparr>lq_queue = SPSC_contents Size q, lq_max_size = SPSC_capacity Size\<rparr>"

definition LQ_new :: "nat \<Rightarrow> 'a LockedQueue" where
  "LQ_new max_size = \<lparr>lq_queue = [], lq_max_size = max_size\<rparr>"

definition LQ_enqueue :: "'a LockedQueue \<Rightarrow> 'a \<Rightarrow> bool \<times> 'a LockedQueue" where
  "LQ_enqueue q item =
     (if length (lq_queue q) \<ge> lq_max_size q then (False, q)
      else (True, q\<lparr>lq_queue := lq_queue q @ [item]\<rparr>))"

definition LQ_dequeue :: "'a LockedQueue \<Rightarrow> 'a \<Rightarrow> bool \<times> 'a \<times> 'a LockedQueue" where
  "LQ_dequeue q item =
     (case lq_queue q of
        [] \<Rightarrow> (False, item, q)
      | front # rest \<Rightarrow> (True, front, q\<lparr>lq_queue := rest\<rparr>))"

fun LQ_call ::
  "'a call \<Rightarrow> 'a LockedQueue \<times> 'a \<Rightarrow> 'a event \<times> ('a LockedQueue \<times> 'a)" where
  "LQ_call (Enqueue x) (q, item) =
     (case LQ_enqueue q x of (ok, q') \<Rightarrow> (EnqueueRet ok x, (q', item)))"
| "LQ_call Dequeue (q, item) =
     (case LQ_dequeue q item of (ok, item', q') \<Rightarrow> (DequeueRet ok item', (q', item')))"

section \<open>DoubleBufferSPSC\<close>

text \<open>
  \<^verbatim>\<open>write_buffer_\<close> and \<^verbatim>\<open>read_buffer_\<close> are pointers to the two member vectors. A
  pointer is the name of the vector it addresses; reading and writing through a pointer
  go through \<open>deref\<close> and \<open>assign\<close>, so that two pointers to the same vector alias in
  the model as they do in the code.
\<close>

datatype buf = Buffer1 | Buffer2

record 'a DoubleBufferSPSC =
  buffer1 :: "'a list"
  buffer2 :: "'a list"
  write_buffer :: buf
  read_buffer :: buf
  buffer_swapped :: bool
  write_index :: nat
  read_index :: nat
  db_max_size :: nat

fun deref :: "'a DoubleBufferSPSC \<Rightarrow> buf \<Rightarrow> 'a list" where
  "deref q Buffer1 = buffer1 q"
| "deref q Buffer2 = buffer2 q"

fun assign :: "buf \<Rightarrow> 'a list \<Rightarrow> 'a DoubleBufferSPSC \<Rightarrow> 'a DoubleBufferSPSC" where
  "assign Buffer1 v q = q\<lparr>buffer1 := v\<rparr>"
| "assign Buffer2 v q = q\<lparr>buffer2 := v\<rparr>"

definition DB_new :: "nat \<Rightarrow> 'a DoubleBufferSPSC" where
  "DB_new max_size =
     \<lparr>buffer1 = [], buffer2 = [], write_buffer = Buffer1, read_buffer = Buffer2,
      buffer_swapped = False, write_index = 0, read_index = 0, db_max_size = max_size\<rparr>"

definition DB_enqueue :: "'a DoubleBufferSPSC \<Rightarrow> 'a \<Rightarrow> bool \<times> 'a DoubleBufferSPSC" where
  "DB_enqueue q item =
     (let current_write_buffer = write_buffer q
      in if length (deref q current_write_buffer) \<ge> db_max_size q then (False, q)
         else (True, assign current_write_buffer (deref q current_write_buffer @ [item]) q))"

definition DB_swap_buffers :: "'a DoubleBufferSPSC \<Rightarrow> 'a DoubleBufferSPSC" where
  "DB_swap_buffers q =
     (let current_write = write_buffer q;
          current_read = read_buffer q;
          q1 = q\<lparr>write_buffer := current_read\<rparr>;
          q2 = q1\<lparr>read_buffer := current_write\<rparr>;
          q3 = assign current_read [] q2;
          q4 = q3\<lparr>read_index := 0\<rparr>
      in q4\<lparr>buffer_swapped := True\<rparr>)"

definition DB_dequeue ::
  "'a DoubleBufferSPSC \<Rightarrow> 'a \<Rightarrow> bool \<times> 'a \<times> 'a DoubleBufferSPSC" where
  "DB_dequeue q item =
     (let current_read_buffer = read_buffer q;
          current_read_index = read_index q
      in if current_read_index \<ge> length (deref q current_read_buffer) then (False, item, q)
         else (True, deref q current_read_buffer ! current_read_index,
               q\<lparr>read_index := current_read_index + 1\<rparr>))"

definition DB_has_data :: "'a DoubleBufferSPSC \<Rightarrow> bool" where
  "DB_has_data q \<longleftrightarrow>
     (let current_read_buffer = read_buffer q;
          current_read_index = read_index q
      in current_read_index < length (deref q current_read_buffer))"

definition DB_buffer_was_swapped :: "'a DoubleBufferSPSC \<Rightarrow> bool \<times> 'a DoubleBufferSPSC" where
  "DB_buffer_was_swapped q = (buffer_swapped q, q\<lparr>buffer_swapped := False\<rparr>)"

fun DB_call ::
  "'a db_call \<Rightarrow> 'a DoubleBufferSPSC \<times> 'a \<Rightarrow> 'a event \<times> ('a DoubleBufferSPSC \<times> 'a)" where
  "DB_call (DBEnqueue x) (q, item) =
     (case DB_enqueue q x of (ok, q') \<Rightarrow> (EnqueueRet ok x, (q', item)))"
| "DB_call DBDequeue (q, item) =
     (case DB_dequeue q item of (ok, item', q') \<Rightarrow> (DequeueRet ok item', (q', item')))"
| "DB_call SwapBuffers (q, item) = (SwapRet, (DB_swap_buffers q, item))"
| "DB_call BufferWasSwapped (q, item) =
     (case DB_buffer_was_swapped q of (r, q') \<Rightarrow> (WasSwappedRet r, (q', item)))"

text \<open>
  The producer's discipline: every \<^verbatim>\<open>swap_buffers()\<close> of the run is called when
  \<^verbatim>\<open>has_data()\<close> is false, that is, after the consumer has drained the read buffer.
\<close>

fun DB_drained_swaps :: "'a db_call list \<Rightarrow> 'a DoubleBufferSPSC \<times> 'a \<Rightarrow> bool" where
  "DB_drained_swaps [] s = True"
| "DB_drained_swaps (c # cs) s =
     ((c \<noteq> SwapBuffers \<or> \<not> DB_has_data (fst s)) \<and> DB_drained_swaps cs (snd (DB_call c s)))"

text \<open>
  The elements a disciplined run has still to deliver: the unread rest of the read
  buffer, then the write buffer.
\<close>

definition DB_pending :: "'a DoubleBufferSPSC \<Rightarrow> 'a list" where
  "DB_pending q = drop (read_index q) (deref q (read_buffer q)) @ deref q (write_buffer q)"

definition DB_inv :: "'a DoubleBufferSPSC \<Rightarrow> bool" where
  "DB_inv q \<longleftrightarrow> write_buffer q \<noteq> read_buffer q"

section \<open>Auxiliary facts\<close>

subsection \<open>Powers of two and masks\<close>

lemma and_pred_double: "0 < m \<Longrightarrow> (2 * m) AND (2 * m - 1) = 2 * (m AND (m - 1))" for m :: nat
proof -
  assume "0 < m"
  then have "2 * m - 1 = 1 + 2 * (m - 1)" by simp
  then show ?thesis
    by (simp add: and_nat_rec[of "2*m"] del: One_nat_def)
qed

lemma and_pred_odd: "(2 * m + 1) AND (2 * m + 1 - 1) = 2 * m" for m :: nat
  by (simp add: and_nat_rec[of "Suc (2*m)"])

lemma and_pred_zero_pow2: "0 < n \<Longrightarrow> n AND (n - 1) = 0 \<Longrightarrow> \<exists>k. n = 2 ^ k" for n :: nat
proof (induction n rule: less_induct)
  case (less n)
  show ?case
  proof (cases "even n")
    case True
    then obtain m where m: "n = 2 * m" by (auto elim: evenE)
    with less.prems have "0 < m" by simp
    with less.prems m and_pred_double[of m] have "m AND (m - 1) = 0" by simp
    with less.IH[of m] m \<open>0 < m\<close> obtain k where "m = 2 ^ k" by auto
    with m have "n = 2 ^ Suc k" by simp
    then show ?thesis by blast
  next
    case False
    then obtain m where m: "n = 2 * m + 1" by (auto elim: oddE)
    with less.prems and_pred_odd[of m] have "m = 0" by simp
    with m have "n = 2 ^ 0" by simp
    then show ?thesis by blast
  qed
qed

lemma Size_ok_pow2: "Size_ok S \<Longrightarrow> \<exists>k. S = 2 ^ k"
  unfolding Size_ok_def using and_pred_zero_pow2 by blast

lemma pow2_Size_ok: "Size_ok (2 ^ k)"
proof -
  have "(2::nat) ^ k AND mask k = 0" by (simp flip: take_bit_eq_mask)
  then show ?thesis unfolding Size_ok_def by (simp add: mask_eq_exp_minus_1)
qed

lemma and_MASK_mod: "Size_ok S \<Longrightarrow> n AND MASK S = n mod S"
proof -
  assume "Size_ok S"
  then obtain k where "S = 2 ^ k" using Size_ok_pow2 by blast
  then show ?thesis
    unfolding MASK_def
    by (simp add: take_bit_eq_mod[symmetric] take_bit_eq_mask mask_eq_exp_minus_1)
qed

lemma succ_mod: "i < S \<Longrightarrow> Suc i mod S = (if Suc i = S then 0 else Suc i)" for i :: nat
  by (simp add: mod_Suc)

lemma wrap_mod: "x < 2 * S \<Longrightarrow> x mod S = (if x < S then x else x - S)" for x :: nat
  by (simp add: le_mod_geq)

lemma SPSC_count_cases:
  "SPSC_inv S q \<Longrightarrow>
   SPSC_count S q = (if head q \<le> tail q then tail q - head q else tail q + S - head q)"
  unfolding SPSC_inv_def SPSC_count_def by (auto simp: wrap_mod)

lemma SPSC_count_less: "SPSC_inv S q \<Longrightarrow> SPSC_count S q < S"
  unfolding SPSC_inv_def SPSC_count_def by auto

lemma length_SPSC_contents: "length (SPSC_contents S q) = SPSC_count S q"
  by (simp add: SPSC_contents_def)

lemma SPSC_full_count:
  "Size_ok S \<Longrightarrow> SPSC_inv S q \<Longrightarrow> SPSC_full S q \<longleftrightarrow> SPSC_count S q = S - 1"
  by (auto simp: SPSC_full_def and_MASK_mod SPSC_count_cases succ_mod SPSC_inv_def split: if_splits)

lemma SPSC_empty_count:
  "SPSC_inv S q \<Longrightarrow> SPSC_empty q \<longleftrightarrow> SPSC_count S q = 0"
  by (auto simp: SPSC_empty_def SPSC_count_cases SPSC_inv_def split: if_splits)

lemma SPSC_enqueue_sim:
  assumes "Size_ok S" "SPSC_inv S q"
  shows "SPSC_inv S (snd (SPSC_enqueue S q x))"
    and "fst (SPSC_enqueue S q x) \<longleftrightarrow> length (SPSC_contents S q) < S - 1"
    and "SPSC_contents S (snd (SPSC_enqueue S q x)) =
           (if fst (SPSC_enqueue S q x) then SPSC_contents S q @ [x] else SPSC_contents S q)"
proof -
  let ?q' = "snd (SPSC_enqueue S q x)"
  from assms have h: "head q < S" and t: "tail q < S" and l: "length (buffer q) = S"
    by (simp_all add: SPSC_inv_def)
  have nt: "(tail q + 1) AND MASK S = (if Suc (tail q) = S then 0 else Suc (tail q))"
    using assms(1) t by (simp add: and_MASK_mod succ_mod)
  show inv': "SPSC_inv S ?q'"
    using h t l nt by (auto simp: SPSC_enqueue_def SPSC_inv_def Let_def)
  have full: "SPSC_full S q \<longleftrightarrow> SPSC_count S q = S - 1"
    using assms by (rule SPSC_full_count)
  have ok: "fst (SPSC_enqueue S q x) \<longleftrightarrow> \<not> SPSC_full S q"
    by (simp add: SPSC_enqueue_def SPSC_full_def Let_def)
  show ok': "fst (SPSC_enqueue S q x) \<longleftrightarrow> length (SPSC_contents S q) < S - 1"
    using ok full SPSC_count_less[OF assms(2)] by (auto simp: length_SPSC_contents)
  show "SPSC_contents S ?q' =
           (if fst (SPSC_enqueue S q x) then SPSC_contents S q @ [x] else SPSC_contents S q)"
  proof (cases "fst (SPSC_enqueue S q x)")
    case False
    then show ?thesis by (simp add: SPSC_enqueue_def Let_def split: if_splits)
  next
    case True
    then have nf: "(tail q + 1) AND MASK S \<noteq> head q"
      by (simp add: SPSC_enqueue_def Let_def split: if_splits)
    then have q': "?q' = q\<lparr>buffer := (buffer q)[tail q := x], tail := (tail q + 1) AND MASK S\<rparr>"
      by (simp add: SPSC_enqueue_def Let_def)
    have c': "SPSC_count S ?q' = Suc (SPSC_count S q)"
      using nf nt h t unfolding q' SPSC_count_def by (auto simp: wrap_mod split: if_splits)
    have tl: "(head q + SPSC_count S q) mod S = tail q"
      using h t by (auto simp: SPSC_count_cases[OF assms(2)] wrap_mod)
    have old: "(head q + i) mod S \<noteq> tail q" if "i < SPSC_count S q" for i
      using that h t by (auto simp: SPSC_count_cases[OF assms(2)] wrap_mod split: if_splits)
    have keep: "(buffer q)[tail q := x] ! ((head q + i) mod S) = buffer q ! ((head q + i) mod S)"
      if "i < SPSC_count S q" for i
      using old[OF that, symmetric] by simp
    have new: "(buffer q)[tail q := x] ! ((head q + SPSC_count S q) mod S) = x"
      using tl t l by simp
    have "SPSC_contents S ?q' = map (\<lambda>i. (buffer q)[tail q := x] ! ((head q + i) mod S)) [0..<Suc (SPSC_count S q)]"
      unfolding SPSC_contents_def c' by (simp add: q')
    also have "\<dots> = map (\<lambda>i. buffer q ! ((head q + i) mod S)) [0..<SPSC_count S q] @ [x]"
      by (simp add: keep new)
    finally show ?thesis using True by (simp add: SPSC_contents_def)
  qed
qed

lemma SPSC_dequeue_sim:
  assumes "Size_ok S" "SPSC_inv S q"
  shows "SPSC_inv S (snd (snd (SPSC_dequeue S q item)))"
    and "fst (SPSC_dequeue S q item) \<longleftrightarrow> SPSC_contents S q \<noteq> []"
    and "fst (SPSC_dequeue S q item) \<Longrightarrow>
           SPSC_contents S q = fst (snd (SPSC_dequeue S q item)) # SPSC_contents S (snd (snd (SPSC_dequeue S q item)))"
    and "\<not> fst (SPSC_dequeue S q item) \<Longrightarrow> snd (SPSC_dequeue S q item) = (item, q)"
proof -
  let ?q' = "snd (snd (SPSC_dequeue S q item))"
  from assms have h: "head q < S" and t: "tail q < S" and l: "length (buffer q) = S"
    by (simp_all add: SPSC_inv_def)
  have nh: "(head q + 1) AND MASK S = (if Suc (head q) = S then 0 else Suc (head q))"
    using assms(1) h by (simp add: and_MASK_mod succ_mod)
  show inv': "SPSC_inv S ?q'"
    using h t l nh by (auto simp: SPSC_dequeue_def SPSC_inv_def Let_def)
  have ok: "fst (SPSC_dequeue S q item) \<longleftrightarrow> \<not> SPSC_empty q"
    by (simp add: SPSC_dequeue_def SPSC_empty_def Let_def)
  show "fst (SPSC_dequeue S q item) \<longleftrightarrow> SPSC_contents S q \<noteq> []"
    using ok SPSC_empty_count[OF assms(2)] length_SPSC_contents[of S q] by auto
  show "snd (SPSC_dequeue S q item) = (item, q)" if "\<not> fst (SPSC_dequeue S q item)"
    using that by (simp add: SPSC_dequeue_def Let_def split: if_splits)
  show "SPSC_contents S q = fst (snd (SPSC_dequeue S q item)) # SPSC_contents S ?q'"
    if "fst (SPSC_dequeue S q item)"
  proof -
    from that have ne: "head q \<noteq> tail q"
      by (simp add: SPSC_dequeue_def Let_def split: if_splits)
    then have q': "?q' = q\<lparr>head := (head q + 1) AND MASK S\<rparr>"
      and it: "fst (snd (SPSC_dequeue S q item)) = buffer q ! head q"
      by (simp_all add: SPSC_dequeue_def Let_def)
    have c: "SPSC_count S q = Suc (SPSC_count S ?q')"
      using ne nh h t unfolding q' SPSC_count_def by (auto simp: wrap_mod split: if_splits)
    have sh: "(head q + Suc i) mod S = (head ?q' + i) mod S" for i
      by (simp add: q' and_MASK_mod[OF assms(1)] mod_add_left_eq)
    have "SPSC_contents S q = map (\<lambda>i. buffer q ! ((head q + i) mod S)) [0..<Suc (SPSC_count S ?q')]"
      unfolding SPSC_contents_def c ..
    also have "\<dots> = buffer q ! head q # map (\<lambda>i. buffer q ! ((head q + Suc i) mod S)) [0..<SPSC_count S ?q']"
      using h by (simp add: upt_conv_Cons map_Suc_upt[symmetric] del: upt_Suc)
    also have "\<dots> = buffer q ! head q # SPSC_contents S ?q'"
      unfolding sh by (simp add: SPSC_contents_def q')
    finally show ?thesis by (simp add: it)
  qed
qed

subsection \<open>Runs, and the ring as a bounded list\<close>

lemma run_append:
  "run step (cs @ ds) s =
     (case run step cs s of (es, s') \<Rightarrow>
        (case run step ds s' of (fs, s'') \<Rightarrow> (es @ fs, s'')))"
  by (induction cs arbitrary: s) (auto split: prod.splits)

lemma enqueued_append: "enqueued (es @ fs) = enqueued es @ enqueued fs"
  by (induction es rule: enqueued.induct) auto

lemma dequeued_append: "dequeued (es @ fs) = dequeued es @ dequeued fs"
  by (induction es rule: dequeued.induct) auto

lemma LQ_call_fifo:
  "LQ_call c (q, item) = (e, (q', item')) \<Longrightarrow>
   lq_queue q @ enqueued [e] = dequeued [e] @ lq_queue q' \<and> lq_max_size q' = lq_max_size q"
  by (cases c) (auto simp: LQ_enqueue_def LQ_dequeue_def split: if_splits list.splits)

lemma LQ_run_fifo:
  "run LQ_call cs (q, item) = (es, (q', item')) \<Longrightarrow>
   lq_queue q @ enqueued es = dequeued es @ lq_queue q' \<and> lq_max_size q' = lq_max_size q"
proof (induction cs arbitrary: q item es)
  case Nil
  then show ?case by simp
next
  case (Cons c cs)
  obtain e q1 item1 where step: "LQ_call c (q, item) = (e, (q1, item1))"
    by (metis prod.exhaust)
  obtain fs where rest: "run LQ_call cs (q1, item1) = (fs, (q', item'))" and es: "es = e # fs"
    using Cons.prems step by (auto split: prod.splits)
  from LQ_call_fifo[OF step] Cons.IH[OF rest] es
  have "lq_queue q @ enqueued [e] @ enqueued fs = dequeued [e] @ dequeued fs @ lq_queue q'"
    and "lq_max_size q' = lq_max_size q"
    by (metis append.assoc)+
  then show ?case
    using es enqueued_append[of "[e]" fs] dequeued_append[of "[e]" fs] by simp
qed

lemma LQ_run_bound:
  "run LQ_call cs (q, item) = (es, (q', item')) \<Longrightarrow>
   length (lq_queue q) \<le> lq_max_size q \<Longrightarrow> length (lq_queue q') \<le> lq_max_size q'"
proof (induction cs arbitrary: q item es)
  case Nil
  then show ?case by simp
next
  case (Cons c cs)
  obtain e q1 item1 where step: "LQ_call c (q, item) = (e, (q1, item1))"
    by (metis prod.exhaust)
  obtain fs where rest: "run LQ_call cs (q1, item1) = (fs, (q', item'))"
    using Cons.prems step by (auto split: prod.splits)
  have "length (lq_queue q1) \<le> lq_max_size q1"
    using step Cons.prems(2)
    by (cases c) (auto simp: LQ_enqueue_def LQ_dequeue_def split: if_splits list.splits)
  then show ?case using Cons.IH[OF rest] by simp
qed

lemma LQ_fill:
  "length (lq_queue q) + length xs \<le> lq_max_size q \<Longrightarrow>
   run LQ_call (map Enqueue xs) (q, item) =
     (map (EnqueueRet True) xs, (q\<lparr>lq_queue := lq_queue q @ xs\<rparr>, item))"
  by (induction xs arbitrary: q) (auto simp: LQ_enqueue_def)

lemma LQ_fill_reject:
  assumes "length (lq_queue q) + length xs = lq_max_size q"
  shows "fst (run LQ_call (map Enqueue (xs @ [y])) (q, item)) =
           map (EnqueueRet True) xs @ [EnqueueRet False y]"
  using assms by (simp add: run_append LQ_fill LQ_enqueue_def)

lemma SPSC_call_sim:
  assumes "Size_ok S" "SPSC_inv S q" "SPSC_call S c (q, item) = (e, (q', item'))"
  shows "SPSC_inv S q' \<and> LQ_call c (SPSC_abs S q, item) = (e, (SPSC_abs S q', item'))"
proof (cases c)
  case (Enqueue x)
  obtain ok q1 where r: "SPSC_enqueue S q x = (ok, q1)" by (metis prod.exhaust)
  with assms(3) Enqueue have e: "e = EnqueueRet ok x" "q' = q1" "item' = item" by auto
  from SPSC_enqueue_sim[OF assms(1,2), of x] r
  have "SPSC_inv S q1" "ok \<longleftrightarrow> length (SPSC_contents S q) < S - 1"
    "SPSC_contents S q1 = (if ok then SPSC_contents S q @ [x] else SPSC_contents S q)"
    by simp_all
  then show ?thesis
    using e Enqueue by (auto simp: SPSC_abs_def LQ_enqueue_def SPSC_capacity_def)
next
  case Dequeue
  obtain ok x q1 where r: "SPSC_dequeue S q item = (ok, x, q1)" by (metis prod.exhaust)
  with assms(3) Dequeue have e: "e = DequeueRet ok x" "q' = q1" "item' = x" by auto
  from SPSC_dequeue_sim[OF assms(1,2), of item] r
  have "SPSC_inv S q1" "ok \<longleftrightarrow> SPSC_contents S q \<noteq> []"
    "ok \<Longrightarrow> SPSC_contents S q = x # SPSC_contents S q1"
    "\<not> ok \<Longrightarrow> x = item \<and> q1 = q"
    by simp_all
  then show ?thesis
    using e Dequeue by (cases ok) (auto simp: SPSC_abs_def LQ_dequeue_def split: list.splits)
qed

lemma SPSC_run_sim:
  assumes "Size_ok S"
  shows "SPSC_inv S q \<Longrightarrow> run (SPSC_call S) cs (q, item) = (es, (q', item')) \<Longrightarrow>
         SPSC_inv S q' \<and> run LQ_call cs (SPSC_abs S q, item) = (es, (SPSC_abs S q', item'))"
proof (induction cs arbitrary: q item es)
  case Nil
  then show ?case by simp
next
  case (Cons c cs)
  obtain e q1 item1 where step: "SPSC_call S c (q, item) = (e, (q1, item1))"
    by (metis prod.exhaust)
  obtain fs where rest: "run (SPSC_call S) cs (q1, item1) = (fs, (q', item'))" and es: "es = e # fs"
    using Cons.prems(2) step by (auto split: prod.splits)
  from SPSC_call_sim[OF assms Cons.prems(1) step]
  have inv1: "SPSC_inv S q1" and sim1: "LQ_call c (SPSC_abs S q, item) = (e, (SPSC_abs S q1, item1))"
    by simp_all
  from Cons.IH[OF inv1 rest] sim1 es show ?case by simp
qed

lemma SPSC_new_inv: "length mem = S \<Longrightarrow> 0 < S \<Longrightarrow> SPSC_inv S (SPSC_new mem)"
  by (simp add: SPSC_inv_def SPSC_new_def)

lemma SPSC_new_abs: "0 < S \<Longrightarrow> SPSC_abs S (SPSC_new mem) = LQ_new (S - 1)"
  by (simp add: SPSC_abs_def SPSC_new_def LQ_new_def SPSC_contents_def SPSC_count_def SPSC_capacity_def)

subsection \<open>The double buffer\<close>

lemma deref_update:
  "deref (q\<lparr>buffer_swapped := f\<rparr>) b = deref q b"
  "deref (q\<lparr>read_index := i\<rparr>) b = deref q b"
  "deref (q\<lparr>write_buffer := w\<rparr>) b = deref q b"
  "deref (q\<lparr>read_buffer := r\<rparr>) b = deref q b"
  by (cases b; simp)+

lemma deref_assign: "deref (assign b v q) b' = (if b' = b then v else deref q b')"
  by (cases b; cases b'; simp)

lemma DB_enqueue_inv: "DB_inv q \<Longrightarrow> DB_inv (snd (DB_enqueue q x))"
  by (cases "write_buffer q") (auto simp: DB_enqueue_def DB_inv_def Let_def)

lemma DB_dequeue_inv: "DB_inv q \<Longrightarrow> DB_inv (snd (snd (DB_dequeue q item)))"
  by (auto simp: DB_dequeue_def DB_inv_def Let_def)

lemma DB_swap_buffers_inv: "DB_inv q \<Longrightarrow> DB_inv (DB_swap_buffers q)"
  by (cases "read_buffer q") (auto simp: DB_swap_buffers_def DB_inv_def Let_def)

lemma DB_call_inv:
  assumes "DB_inv q" "DB_call c (q, item) = (e, (q', item'))"
  shows "DB_inv q'"
proof (cases c)
  case (DBEnqueue x)
  with assms(2) have "q' = snd (DB_enqueue q x)" by (auto split: prod.splits)
  then show ?thesis using DB_enqueue_inv[OF assms(1)] by simp
next
  case DBDequeue
  with assms(2) have "q' = snd (snd (DB_dequeue q item))" by (auto split: prod.splits)
  then show ?thesis using DB_dequeue_inv[OF assms(1)] by simp
next
  case SwapBuffers
  with assms(2) have "q' = DB_swap_buffers q" by simp
  then show ?thesis using DB_swap_buffers_inv[OF assms(1)] by simp
next
  case BufferWasSwapped
  with assms show ?thesis by (auto simp: DB_buffer_was_swapped_def DB_inv_def)
qed

lemma DB_new_inv: "DB_inv (DB_new M)"
  by (simp add: DB_inv_def DB_new_def)

lemma DB_run_inv:
  "DB_inv q \<Longrightarrow> run DB_call cs (q, item) = (es, (q', item')) \<Longrightarrow> DB_inv q'"
proof (induction cs arbitrary: q item es)
  case Nil
  then show ?case by simp
next
  case (Cons c cs)
  obtain e q1 item1 where step: "DB_call c (q, item) = (e, (q1, item1))"
    by (metis prod.exhaust)
  obtain fs where rest: "run DB_call cs (q1, item1) = (fs, (q', item'))"
    using Cons.prems(2) step by (auto split: prod.splits)
  from Cons.IH[OF DB_call_inv[OF Cons.prems(1) step] rest] show ?case .
qed

lemma DB_enqueue_pending:
  "DB_inv q \<Longrightarrow>
   DB_pending (snd (DB_enqueue q x)) =
     (if fst (DB_enqueue q x) then DB_pending q @ [x] else DB_pending q)"
  by (cases "write_buffer q"; cases "read_buffer q")
     (auto simp: DB_enqueue_def DB_inv_def DB_pending_def Let_def)

lemma DB_dequeue_pending:
  "DB_pending q =
     (if fst (DB_dequeue q item)
      then fst (snd (DB_dequeue q item)) # DB_pending (snd (snd (DB_dequeue q item)))
      else DB_pending (snd (snd (DB_dequeue q item))))"
  by (cases "write_buffer q"; cases "read_buffer q")
     (auto simp: DB_dequeue_def DB_pending_def Let_def Cons_nth_drop_Suc)

lemma DB_swap_buffers_pending:
  "DB_inv q \<Longrightarrow> DB_pending (DB_swap_buffers q) = deref q (write_buffer q)"
  by (cases "write_buffer q"; cases "read_buffer q")
     (auto simp: DB_swap_buffers_def DB_inv_def DB_pending_def Let_def)

lemma DB_drained_pending:
  "\<not> DB_has_data q \<Longrightarrow> DB_pending q = deref q (write_buffer q)"
  by (simp add: DB_has_data_def DB_pending_def Let_def)

lemma DB_call_fifo:
  assumes "DB_inv q" "c \<noteq> SwapBuffers \<or> \<not> DB_has_data q"
    "DB_call c (q, item) = (e, (q', item'))"
  shows "DB_pending q @ enqueued [e] = dequeued [e] @ DB_pending q'"
proof (cases c)
  case (DBEnqueue x)
  then show ?thesis
    using assms(3) DB_enqueue_pending[OF assms(1), of x] by (auto split: prod.splits)
next
  case DBDequeue
  then show ?thesis
    using assms(3) DB_dequeue_pending[of q item] by (auto split: prod.splits if_splits)
next
  case SwapBuffers
  then show ?thesis
    using assms DB_swap_buffers_pending[of q] DB_drained_pending[of q] by auto
next
  case BufferWasSwapped
  then show ?thesis
    using assms(3) by (auto simp: DB_buffer_was_swapped_def DB_pending_def deref_update)
qed

lemma DB_run_fifo:
  "DB_inv q \<Longrightarrow> DB_drained_swaps cs (q, item) \<Longrightarrow>
   run DB_call cs (q, item) = (es, (q', item')) \<Longrightarrow>
   DB_pending q @ enqueued es = dequeued es @ DB_pending q'"
proof (induction cs arbitrary: q item es)
  case Nil
  then show ?case by simp
next
  case (Cons c cs)
  obtain e q1 item1 where step: "DB_call c (q, item) = (e, (q1, item1))"
    by (metis prod.exhaust)
  obtain fs where rest: "run DB_call cs (q1, item1) = (fs, (q', item'))" and es: "es = e # fs"
    using Cons.prems(3) step by (auto split: prod.splits)
  from Cons.prems(2) step have ok: "c \<noteq> SwapBuffers \<or> \<not> DB_has_data q"
    and disc: "DB_drained_swaps cs (q1, item1)"
    by simp_all
  from DB_call_fifo[OF Cons.prems(1) ok step]
    Cons.IH[OF DB_call_inv[OF Cons.prems(1) step] disc rest]
  have "DB_pending q @ enqueued [e] @ enqueued fs = dequeued [e] @ dequeued fs @ DB_pending q'"
    by (metis append.assoc)
  then show ?case
    using es enqueued_append[of "[e]" fs] dequeued_append[of "[e]" fs] by simp
qed

lemma DB_call_count:
  assumes "DB_inv q" "DB_call c (q, item) = (e, (q', item'))"
  shows "length (dequeued [e]) + length (DB_pending q') \<le> length (DB_pending q) + length (enqueued [e])"
proof (cases c)
  case (DBEnqueue x)
  then show ?thesis
    using assms(2) DB_enqueue_pending[OF assms(1), of x] by (auto split: prod.splits)
next
  case DBDequeue
  then show ?thesis
    using assms(2) DB_dequeue_pending[of q item] by (auto split: prod.splits if_splits)
next
  case SwapBuffers
  then show ?thesis
    using assms DB_swap_buffers_pending[of q] by (auto simp: DB_pending_def)
next
  case BufferWasSwapped
  then show ?thesis
    using assms(2) by (auto simp: DB_buffer_was_swapped_def DB_pending_def deref_update)
qed

lemma DB_run_count:
  "DB_inv q \<Longrightarrow> run DB_call cs (q, item) = (es, (q', item')) \<Longrightarrow>
   length (dequeued es) + length (DB_pending q') \<le> length (DB_pending q) + length (enqueued es)"
proof (induction cs arbitrary: q item es)
  case Nil
  then show ?case by simp
next
  case (Cons c cs)
  obtain e q1 item1 where step: "DB_call c (q, item) = (e, (q1, item1))"
    by (metis prod.exhaust)
  obtain fs where rest: "run DB_call cs (q1, item1) = (fs, (q', item'))" and es: "es = e # fs"
    using Cons.prems(2) step by (auto split: prod.splits)
  from DB_call_count[OF Cons.prems(1) step]
    Cons.IH[OF DB_call_inv[OF Cons.prems(1) step] rest]
  have "length (dequeued [e]) + length (dequeued fs) + length (DB_pending q')
          \<le> length (DB_pending q) + length (enqueued [e]) + length (enqueued fs)"
    by linarith
  then show ?case
    using es enqueued_append[of "[e]" fs] dequeued_append[of "[e]" fs] by simp
qed

lemma DB_call_source:
  assumes "DB_call c (q, item) = (e, (q', item'))"
  shows "set (dequeued [e]) \<union> set (buffer1 q') \<union> set (buffer2 q')
           \<subseteq> set (buffer1 q) \<union> set (buffer2 q) \<union> {y. c = DBEnqueue y}"
proof (cases c)
  case (DBEnqueue x)
  then show ?thesis
    using assms by (cases "write_buffer q") (auto simp: DB_enqueue_def Let_def split: if_splits)
next
  case DBDequeue
  then show ?thesis
    using assms by (cases "read_buffer q") (auto simp: DB_dequeue_def Let_def split: if_splits)
next
  case SwapBuffers
  then show ?thesis
    using assms by (cases "read_buffer q") (auto simp: DB_swap_buffers_def Let_def)
next
  case BufferWasSwapped
  then show ?thesis
    using assms by (auto simp: DB_buffer_was_swapped_def)
qed

lemma DB_run_source:
  "run DB_call cs (q, item) = (es, (q', item')) \<Longrightarrow>
   set (dequeued es) \<union> set (buffer1 q') \<union> set (buffer2 q')
     \<subseteq> set (buffer1 q) \<union> set (buffer2 q) \<union> {y. DBEnqueue y \<in> set cs}"
proof (induction cs arbitrary: q item es)
  case Nil
  then show ?case by simp
next
  case (Cons c cs)
  obtain e q1 item1 where step: "DB_call c (q, item) = (e, (q1, item1))"
    by (metis prod.exhaust)
  obtain fs where rest: "run DB_call cs (q1, item1) = (fs, (q', item'))" and es: "es = e # fs"
    using Cons.prems step by (auto split: prod.splits)
  have "set (dequeued es) = set (dequeued [e]) \<union> set (dequeued fs)"
    using es dequeued_append[of "[e]" fs] by simp
  then show ?case
    using DB_call_source[OF step] Cons.IH[OF rest] by auto
qed

lemma DB_call_flag_kept:
  "c \<noteq> SwapBuffers \<Longrightarrow> c \<noteq> BufferWasSwapped \<Longrightarrow>
   buffer_swapped (fst (snd (DB_call c (q, item)))) = buffer_swapped q"
  by (cases c; cases "write_buffer q")
     (auto simp: DB_enqueue_def DB_dequeue_def Let_def split: prod.splits)

lemma DB_call_flag_down:
  "c \<noteq> SwapBuffers \<Longrightarrow> \<not> buffer_swapped q \<Longrightarrow>
   \<not> buffer_swapped (fst (snd (DB_call c (q, item))))"
  by (cases c; cases "write_buffer q")
     (auto simp: DB_enqueue_def DB_dequeue_def DB_buffer_was_swapped_def Let_def split: prod.splits)

lemma snd_run_Cons: "snd (run step (c # cs) s) = snd (run step cs (snd (step c s)))"
  by (simp split: prod.splits)

lemma fst_run_Cons:
  "fst (run step (c # cs) s) = fst (step c s) # fst (run step cs (snd (step c s)))"
  by (simp split: prod.splits)

lemma DB_run_flag_kept:
  "SwapBuffers \<notin> set cs \<Longrightarrow> BufferWasSwapped \<notin> set cs \<Longrightarrow>
   buffer_swapped (fst (snd (run DB_call cs (q, item)))) = buffer_swapped q"
proof (induction cs arbitrary: q item)
  case Nil
  then show ?case by simp
next
  case (Cons c cs)
  obtain q1 item1 where step: "snd (DB_call c (q, item)) = (q1, item1)"
    by (metis prod.exhaust)
  from Cons.prems have c: "c \<noteq> SwapBuffers" "c \<noteq> BufferWasSwapped"
    and cs: "SwapBuffers \<notin> set cs" "BufferWasSwapped \<notin> set cs"
    by auto
  have "buffer_swapped q1 = buffer_swapped q"
    using DB_call_flag_kept[OF c, of q item] step by simp
  then show ?case
    using Cons.IH[OF cs, of q1 item1] step by (simp only: snd_run_Cons)
qed

lemma DB_run_flag_down:
  "SwapBuffers \<notin> set cs \<Longrightarrow> \<not> buffer_swapped q \<Longrightarrow>
   \<not> buffer_swapped (fst (snd (run DB_call cs (q, item))))"
proof (induction cs arbitrary: q item)
  case Nil
  then show ?case by simp
next
  case (Cons c cs)
  obtain q1 item1 where step: "snd (DB_call c (q, item)) = (q1, item1)"
    by (metis prod.exhaust)
  from Cons.prems(1) have c: "c \<noteq> SwapBuffers" and cs: "SwapBuffers \<notin> set cs"
    by auto
  have "\<not> buffer_swapped q1"
    using DB_call_flag_down[OF c Cons.prems(2), of item] step by simp
  from Cons.IH[OF cs this, of item1] show ?case
    using step by (simp add: snd_run_Cons del: run.simps)
qed

text \<open>
  From a fresh double buffer, the calls of the two scenarios below are all accepted exactly
  when the capacity admits them.
\<close>

lemma DB_three_enqueues_accepted:
  "fst (run DB_call [DBEnqueue a, DBEnqueue b, DBEnqueue c] (DB_new M, item)) =
     [EnqueueRet True a, EnqueueRet True b, EnqueueRet True c] \<longleftrightarrow> 3 \<le> M"
  by (auto simp: DB_new_def DB_enqueue_def split: if_splits)

lemma DB_two_pairs_accepted:
  "fst (run DB_call [DBEnqueue a, DBEnqueue b, SwapBuffers, DBEnqueue c, DBEnqueue d]
          (DB_new M, item)) =
     [EnqueueRet True a, EnqueueRet True b, SwapRet, EnqueueRet True c, EnqueueRet True d]
   \<longleftrightarrow> 2 \<le> M"
  by (auto simp: DB_new_def DB_enqueue_def DB_swap_buffers_def split: if_splits)

section \<open>The claims\<close>

text \<open>
  C6. On a \<^verbatim>\<open>LockedQueue\<close> constructed with \<^verbatim>\<open>max_size = 2\<close>, the calls enqueue(A),
  enqueue(B), enqueue(C), dequeue, enqueue(C), dequeue, dequeue, dequeue return, in this
  order: true, true, false, true with A, true, true with B, true with C, false. The last
  event also shows the output variable still holding C after the failed call.
\<close>

theorem LockedQueue_scenario:
  "fst (run LQ_call
          [Enqueue A, Enqueue B, Enqueue C, Dequeue, Enqueue C, Dequeue, Dequeue, Dequeue]
          (LQ_new 2, item)) =
     [EnqueueRet True A, EnqueueRet True B, EnqueueRet False C, DequeueRet True A,
      EnqueueRet True C, DequeueRet True B, DequeueRet True C, DequeueRet False C]"
  by (simp add: LQ_new_def LQ_enqueue_def LQ_dequeue_def)

text \<open>
  C10. Whenever \<^verbatim>\<open>enqueue\<close> or \<^verbatim>\<open>dequeue\<close> of any of the three queues returns false,
  the state of the queue after the call is the state before it: head, tail and buffer of
  the ring; the element sequence of the locked queue; both vectors, both role pointers,
  the read cursor and the swapped flag of the double buffer. This holds in every state.
\<close>

theorem failed_call_keeps_state:
  "(fst (SPSC_enqueue S sq x) = False \<longrightarrow> snd (SPSC_enqueue S sq x) = sq) \<and>
   (fst (SPSC_dequeue S sq item) = False \<longrightarrow> snd (snd (SPSC_dequeue S sq item)) = sq) \<and>
   (fst (LQ_enqueue lq x) = False \<longrightarrow> snd (LQ_enqueue lq x) = lq) \<and>
   (fst (LQ_dequeue lq item) = False \<longrightarrow> snd (snd (LQ_dequeue lq item)) = lq) \<and>
   (fst (DB_enqueue dq x) = False \<longrightarrow> snd (DB_enqueue dq x) = dq) \<and>
   (fst (DB_dequeue dq item) = False \<longrightarrow> snd (snd (DB_dequeue dq item)) = dq)"
  by (simp add: SPSC_enqueue_def SPSC_dequeue_def LQ_enqueue_def LQ_dequeue_def
      DB_enqueue_def DB_dequeue_def Let_def split: list.splits)

theorem failed_call_keeps_state_witness:
  "fst (SPSC_enqueue 2 \<lparr>head = 0, tail = 1, buffer = [5, 0]\<rparr> (7::nat)) = False \<and>
   snd (SPSC_enqueue 2 \<lparr>head = 0, tail = 1, buffer = [5, 0]\<rparr> (7::nat)) =
     \<lparr>head = 0, tail = 1, buffer = [5, 0]\<rparr> \<and>
   fst (SPSC_dequeue 2 \<lparr>head = 1, tail = 1, buffer = [5, 0]\<rparr> (7::nat)) = False \<and>
   snd (snd (SPSC_dequeue 2 \<lparr>head = 1, tail = 1, buffer = [5, 0]\<rparr> (7::nat))) =
     \<lparr>head = 1, tail = 1, buffer = [5, 0]\<rparr> \<and>
   fst (LQ_enqueue \<lparr>lq_queue = [5], lq_max_size = 1\<rparr> (7::nat)) = False \<and>
   snd (LQ_enqueue \<lparr>lq_queue = [5], lq_max_size = 1\<rparr> (7::nat)) =
     \<lparr>lq_queue = [5], lq_max_size = 1\<rparr> \<and>
   fst (LQ_dequeue \<lparr>lq_queue = [], lq_max_size = 1\<rparr> (7::nat)) = False \<and>
   snd (snd (LQ_dequeue \<lparr>lq_queue = [], lq_max_size = 1\<rparr> (7::nat))) =
     \<lparr>lq_queue = [], lq_max_size = 1\<rparr> \<and>
   fst (DB_enqueue (snd (DB_enqueue (DB_new 1) 5)) (7::nat)) = False \<and>
   snd (DB_enqueue (snd (DB_enqueue (DB_new 1) 5)) (7::nat)) = snd (DB_enqueue (DB_new 1) 5) \<and>
   fst (DB_dequeue (snd (DB_enqueue (DB_new 1) 5)) (7::nat)) = False \<and>
   snd (snd (DB_dequeue (snd (DB_enqueue (DB_new 1) 5)) (7::nat))) = snd (DB_enqueue (DB_new 1) 5)"
proof -
  let ?sq1 = "\<lparr>head = 0, tail = 1, buffer = [5, 0::nat]\<rparr>"
  let ?sq2 = "\<lparr>head = 1, tail = 1, buffer = [5, 0::nat]\<rparr>"
  let ?lq1 = "\<lparr>lq_queue = [5::nat], lq_max_size = 1\<rparr>"
  let ?lq2 = "\<lparr>lq_queue = [] :: nat list, lq_max_size = 1\<rparr>"
  let ?dq = "snd (DB_enqueue (DB_new 1) (5::nat))"
  have h1: "fst (SPSC_enqueue 2 ?sq1 7) = False"
    by (simp add: SPSC_enqueue_def MASK_def)
  have h2: "fst (SPSC_dequeue 2 ?sq2 7) = False"
    by (simp add: SPSC_dequeue_def)
  have h3: "fst (LQ_enqueue ?lq1 7) = False"
    by (simp add: LQ_enqueue_def)
  have h4: "fst (LQ_dequeue ?lq2 7) = False"
    by (simp add: LQ_dequeue_def)
  have h5: "fst (DB_enqueue ?dq 7) = False"
    by (simp add: DB_enqueue_def DB_new_def)
  have h6: "fst (DB_dequeue ?dq 7) = False"
    by (simp add: DB_enqueue_def DB_dequeue_def DB_new_def)
  from failed_call_keeps_state[of 2 ?sq1 7 7 ?lq1 ?dq] h1 h3 h5 h6
    failed_call_keeps_state[of 2 ?sq2 7 7 ?lq2 ?dq] h2 h4
  show ?thesis by blast
qed

text \<open>
  C7. In every state whose write and read pointers address distinct vectors (every state
  the class can be in, by \<open>DB_new_inv\<close> and \<open>DB_run_inv\<close>), \<^verbatim>\<open>swap_buffers()\<close>
  exchanges the two roles, resets the read cursor to zero, leaves the vector that is now
  the write buffer empty and the vector that is now the read buffer with exactly what the
  write buffer held, and the two pointers address distinct vectors afterwards.
\<close>

theorem swap_buffers_exchanges_roles:
  assumes "write_buffer q \<noteq> read_buffer q"
  shows "write_buffer (DB_swap_buffers q) = read_buffer q \<and>
         read_buffer (DB_swap_buffers q) = write_buffer q \<and>
         read_index (DB_swap_buffers q) = 0 \<and>
         deref (DB_swap_buffers q) (write_buffer (DB_swap_buffers q)) = [] \<and>
         deref (DB_swap_buffers q) (read_buffer (DB_swap_buffers q)) = deref q (write_buffer q) \<and>
         write_buffer (DB_swap_buffers q) \<noteq> read_buffer (DB_swap_buffers q)"
  using assms
  by (cases "write_buffer q"; cases "read_buffer q")
     (simp_all add: DB_swap_buffers_def Let_def)

theorem swap_buffers_exchanges_roles_witness:
  "write_buffer (snd (DB_enqueue (DB_new 4) (1::nat))) \<noteq>
     read_buffer (snd (DB_enqueue (DB_new 4) (1::nat))) \<and>
   write_buffer (DB_swap_buffers (snd (DB_enqueue (DB_new 4) (1::nat)))) =
     read_buffer (snd (DB_enqueue (DB_new 4) (1::nat))) \<and>
   read_buffer (DB_swap_buffers (snd (DB_enqueue (DB_new 4) (1::nat)))) =
     write_buffer (snd (DB_enqueue (DB_new 4) (1::nat))) \<and>
   read_index (DB_swap_buffers (snd (DB_enqueue (DB_new 4) (1::nat)))) = 0 \<and>
   deref (DB_swap_buffers (snd (DB_enqueue (DB_new 4) (1::nat))))
     (write_buffer (DB_swap_buffers (snd (DB_enqueue (DB_new 4) (1::nat))))) = [] \<and>
   deref (DB_swap_buffers (snd (DB_enqueue (DB_new 4) (1::nat))))
     (read_buffer (DB_swap_buffers (snd (DB_enqueue (DB_new 4) (1::nat))))) =
     deref (snd (DB_enqueue (DB_new 4) (1::nat)))
       (write_buffer (snd (DB_enqueue (DB_new 4) (1::nat)))) \<and>
   deref (snd (DB_enqueue (DB_new 4) (1::nat)))
     (write_buffer (snd (DB_enqueue (DB_new 4) (1::nat)))) = [1]"
proof -
  let ?q = "snd (DB_enqueue (DB_new 4) (1::nat))"
  have h: "write_buffer ?q \<noteq> read_buffer ?q"
    by (simp add: DB_enqueue_def DB_new_def)
  have w: "deref ?q (write_buffer ?q) = [1]"
    by (simp add: DB_enqueue_def DB_new_def)
  from swap_buffers_exchanges_roles[OF h] h w show ?thesis by blast
qed

text \<open>
  C1. Under sequential single-producer/single-consumer use, from a freshly constructed
  queue and for every sequence of calls, the values passed to the successful
  \<^verbatim>\<open>enqueue\<close> calls are, in order, the values returned by the successful
  \<^verbatim>\<open>dequeue\<close> calls followed by the elements the queue still holds: nothing is
  reordered, lost or duplicated, and once the queue is drained the two sequences are
  equal. For \<^verbatim>\<open>DoubleBufferSPSC\<close> the run swaps buffers only when the read buffer is
  drained, and the elements still held are the unread rest of the read buffer followed by
  the write buffer.
\<close>

theorem fifo_order:
  "(Size_ok S \<and> length mem = S \<and>
    run (SPSC_call S) cs (SPSC_new mem, item) = (es1, (q1, item1)) \<longrightarrow>
      enqueued es1 = dequeued es1 @ SPSC_contents S q1) \<and>
   (run LQ_call cs (LQ_new M, item) = (es2, (q2, item2)) \<longrightarrow>
      enqueued es2 = dequeued es2 @ lq_queue q2) \<and>
   (DB_drained_swaps ds (DB_new M, item) \<and>
    run DB_call ds (DB_new M, item) = (es3, (q3, item3)) \<longrightarrow>
      enqueued es3 = dequeued es3 @ DB_pending q3)"
proof (intro conjI impI)
  assume a: "Size_ok S \<and> length mem = S \<and>
    run (SPSC_call S) cs (SPSC_new mem, item) = (es1, (q1, item1))"
  then have pos: "0 < S" by (simp add: Size_ok_def)
  from a have r: "run (SPSC_call S) cs (SPSC_new mem, item) = (es1, (q1, item1))" by simp
  from SPSC_run_sim[OF _ SPSC_new_inv r] a pos
  have "run LQ_call cs (LQ_new (S - 1), item) = (es1, (SPSC_abs S q1, item1))"
    by (simp add: SPSC_new_abs)
  from LQ_run_fifo[OF this] show "enqueued es1 = dequeued es1 @ SPSC_contents S q1"
    by (simp add: LQ_new_def SPSC_abs_def)
next
  assume "run LQ_call cs (LQ_new M, item) = (es2, (q2, item2))"
  from LQ_run_fifo[OF this] show "enqueued es2 = dequeued es2 @ lq_queue q2"
    by (simp add: LQ_new_def)
next
  assume "DB_drained_swaps ds (DB_new M, item) \<and>
    run DB_call ds (DB_new M, item) = (es3, (q3, item3))"
  then have d: "DB_drained_swaps ds (DB_new M, item)"
    and r: "run DB_call ds (DB_new M, item) = (es3, (q3, item3))"
    by simp_all
  from DB_run_fifo[OF DB_new_inv d r] show "enqueued es3 = dequeued es3 @ DB_pending q3"
    by (simp add: DB_new_def DB_pending_def)
qed

theorem fifo_order_witness:
  "Size_ok 4 \<and> length [0, 0, 0, 0::nat] = 4 \<and>
   run (SPSC_call 4) [Enqueue 1, Enqueue 2, Dequeue, Enqueue 3, Dequeue]
     (SPSC_new [0, 0, 0, 0::nat], 0) =
     ([EnqueueRet True 1, EnqueueRet True 2, DequeueRet True 1, EnqueueRet True 3,
       DequeueRet True 2],
      (\<lparr>head = 2, tail = 3, buffer = [1, 2, 3, 0]\<rparr>, 2)) \<and>
   [1, 2, 3] = [1, 2] @ SPSC_contents 4 \<lparr>head = 2, tail = 3, buffer = [1, 2, 3, 0::nat]\<rparr> \<and>
   run LQ_call [Enqueue 1, Enqueue 2, Dequeue, Enqueue 3, Dequeue] (LQ_new 2, 0::nat) =
     ([EnqueueRet True 1, EnqueueRet True 2, DequeueRet True 1, EnqueueRet True 3,
       DequeueRet True 2],
      (\<lparr>lq_queue = [3], lq_max_size = 2\<rparr>, 2)) \<and>
   [1, 2, 3] = [1, 2] @ lq_queue \<lparr>lq_queue = [3::nat], lq_max_size = 2\<rparr> \<and>
   DB_drained_swaps
     [DBEnqueue 1, DBEnqueue 2, SwapBuffers, DBDequeue, DBEnqueue 3, DBDequeue,
      SwapBuffers, DBDequeue] (DB_new 2, 0::nat) \<and>
   run DB_call
     [DBEnqueue 1, DBEnqueue 2, SwapBuffers, DBDequeue, DBEnqueue 3, DBDequeue,
      SwapBuffers, DBDequeue] (DB_new 2, 0::nat) =
     ([EnqueueRet True 1, EnqueueRet True 2, SwapRet, DequeueRet True 1, EnqueueRet True 3,
       DequeueRet True 2, SwapRet, DequeueRet True 3],
      (\<lparr>buffer1 = [], buffer2 = [3], write_buffer = Buffer1, read_buffer = Buffer2,
        buffer_swapped = True, write_index = 0, read_index = 1, db_max_size = 2\<rparr>, 3)) \<and>
   [1, 2, 3] = [1, 2, 3] @
     DB_pending \<lparr>buffer1 = [], buffer2 = [3::nat], write_buffer = Buffer1, read_buffer = Buffer2,
        buffer_swapped = True, write_index = 0, read_index = 1, db_max_size = 2\<rparr>"
proof -
  let ?cs = "[Enqueue 1, Enqueue 2, Dequeue, Enqueue 3, Dequeue] :: nat call list"
  let ?ds = "[DBEnqueue 1, DBEnqueue 2, SwapBuffers, DBDequeue, DBEnqueue 3, DBDequeue,
      SwapBuffers, DBDequeue] :: nat db_call list"
  let ?es = "[EnqueueRet True 1, EnqueueRet True 2, DequeueRet True 1, EnqueueRet True 3,
       DequeueRet True 2] :: nat event list"
  let ?q1 = "\<lparr>head = 2, tail = 3, buffer = [1, 2, 3, 0::nat]\<rparr>"
  let ?q2 = "\<lparr>lq_queue = [3::nat], lq_max_size = 2\<rparr>"
  let ?es3 = "[EnqueueRet True 1, EnqueueRet True 2, SwapRet, DequeueRet True 1, EnqueueRet True 3,
       DequeueRet True 2, SwapRet, DequeueRet True 3] :: nat event list"
  let ?q3 = "\<lparr>buffer1 = [], buffer2 = [3::nat], write_buffer = Buffer1, read_buffer = Buffer2,
        buffer_swapped = True, write_index = 0, read_index = 1, db_max_size = 2\<rparr>"
  have h1: "Size_ok 4 \<and> length [0, 0, 0, 0::nat] = 4" by (simp add: Size_ok_def)
  have r1: "run (SPSC_call 4) ?cs (SPSC_new [0, 0, 0, 0::nat], 0) = (?es, (?q1, 2))"
    by code_simp
  have r2: "run LQ_call ?cs (LQ_new 2, 0::nat) = (?es, (?q2, 2))"
    by code_simp
  have d3: "DB_drained_swaps ?ds (DB_new 2, 0::nat)"
    by code_simp
  have r3: "run DB_call ?ds (DB_new 2, 0::nat) = (?es3, (?q3, 3))"
    by code_simp
  from fifo_order[of 4 "[0, 0, 0, 0]" ?cs 0 ?es ?q1 2 2 ?es ?q2 2 ?ds ?es3 ?q3 3] h1 r1 r2 d3 r3
  have "enqueued ?es = dequeued ?es @ SPSC_contents 4 ?q1"
    and "enqueued ?es = dequeued ?es @ lq_queue ?q2"
    and "enqueued ?es3 = dequeued ?es3 @ DB_pending ?q3"
    by blast+
  then show ?thesis using h1 r1 r2 d3 r3 by simp
qed

text \<open>
  C2. From a fresh queue and with no dequeue in between: on a \<^verbatim>\<open>SPSCLockFreeQueue\<close>
  of size \<open>S\<close> the first \<open>S - 1\<close> calls of \<^verbatim>\<open>enqueue\<close> return true and the
  \<open>S\<close>-th returns false; on a \<^verbatim>\<open>LockedQueue\<close> of \<^verbatim>\<open>max_size = M\<close> the first
  \<open>M\<close> return true and the next returns false.
\<close>

theorem capacity_bound:
  "(Size_ok S \<and> length mem = S \<and> length xs = S - 1 \<longrightarrow>
      fst (run (SPSC_call S) (map Enqueue (xs @ [y])) (SPSC_new mem, item)) =
        map (EnqueueRet True) xs @ [EnqueueRet False y]) \<and>
   (length zs = M \<longrightarrow>
      fst (run LQ_call (map Enqueue (zs @ [y])) (LQ_new M, item)) =
        map (EnqueueRet True) zs @ [EnqueueRet False y])"
proof (intro conjI impI)
  assume a: "Size_ok S \<and> length mem = S \<and> length xs = S - 1"
  then have pos: "0 < S" by (simp add: Size_ok_def)
  obtain es q' item' where
    r: "run (SPSC_call S) (map Enqueue (xs @ [y])) (SPSC_new mem, item) = (es, (q', item'))"
    by (metis prod.exhaust)
  from SPSC_run_sim[OF _ SPSC_new_inv r] a pos
  have "run LQ_call (map Enqueue (xs @ [y])) (LQ_new (S - 1), item) = (es, (SPSC_abs S q', item'))"
    by (simp add: SPSC_new_abs)
  moreover have "fst (run LQ_call (map Enqueue (xs @ [y])) (LQ_new (S - 1), item)) =
      map (EnqueueRet True) xs @ [EnqueueRet False y]"
    using a by (intro LQ_fill_reject) (simp add: LQ_new_def)
  ultimately show "fst (run (SPSC_call S) (map Enqueue (xs @ [y])) (SPSC_new mem, item)) =
        map (EnqueueRet True) xs @ [EnqueueRet False y]"
    using r by simp
next
  assume "length zs = M"
  then show "fst (run LQ_call (map Enqueue (zs @ [y])) (LQ_new M, item)) =
        map (EnqueueRet True) zs @ [EnqueueRet False y]"
    by (intro LQ_fill_reject) (simp add: LQ_new_def)
qed

theorem capacity_bound_witness:
  "Size_ok 4 \<and> length [0, 0, 0, 0::nat] = 4 \<and> length [1, 2, 3::nat] = 4 - 1 \<and>
   fst (run (SPSC_call 4) (map Enqueue ([1, 2, 3] @ [4])) (SPSC_new [0, 0, 0, 0::nat], 0)) =
     map (EnqueueRet True) [1, 2, 3] @ [EnqueueRet False 4] \<and>
   length [1, 2::nat] = 2 \<and>
   fst (run LQ_call (map Enqueue ([1, 2] @ [4])) (LQ_new 2, 0::nat)) =
     map (EnqueueRet True) [1, 2] @ [EnqueueRet False 4]"
proof -
  have h1: "Size_ok 4 \<and> length [0, 0, 0, 0::nat] = 4 \<and> length [1, 2, 3::nat] = 4 - 1"
    by (simp add: Size_ok_def)
  have h2: "length [1, 2::nat] = 2" by simp
  from capacity_bound[of 4 "[0, 0, 0, 0]" "[1, 2, 3]" 4 0 "[1, 2]" 2] h1 h2
  show ?thesis by blast
qed

text \<open>
  C3. On a fresh \<^verbatim>\<open>DoubleBufferSPSC\<close> whose capacity admits three elements (by
  \<open>DB_three_enqueues_accepted\<close>, exactly when the three \<^verbatim>\<open>enqueue\<close> calls are
  accepted), three enqueues and one \<^verbatim>\<open>swap_buffers()\<close> are followed by three
  dequeues that return true with the three elements in their order, and a fourth dequeue
  that returns false.
\<close>

theorem batch_of_three:
  assumes "3 \<le> M"
  shows "fst (run DB_call
                [DBEnqueue a, DBEnqueue b, DBEnqueue c, SwapBuffers,
                 DBDequeue, DBDequeue, DBDequeue, DBDequeue]
                (DB_new M, item)) =
           [EnqueueRet True a, EnqueueRet True b, EnqueueRet True c, SwapRet,
            DequeueRet True a, DequeueRet True b, DequeueRet True c, DequeueRet False c]"
  using assms by (simp add: DB_new_def DB_enqueue_def DB_dequeue_def DB_swap_buffers_def)

theorem batch_of_three_witness:
  "(3::nat) \<le> 3 \<and>
   fst (run DB_call
          [DBEnqueue 1, DBEnqueue 2, DBEnqueue 3, SwapBuffers,
           DBDequeue, DBDequeue, DBDequeue, DBDequeue]
          (DB_new 3, 0::nat)) =
     [EnqueueRet True 1, EnqueueRet True 2, EnqueueRet True 3, SwapRet,
      DequeueRet True 1, DequeueRet True 2, DequeueRet True 3, DequeueRet False 3]"
proof -
  have h: "(3::nat) \<le> 3" by simp
  from batch_of_three[OF h, of 1 2 3 0] h show ?thesis by blast
qed

text \<open>
  C4. On a fresh \<^verbatim>\<open>DoubleBufferSPSC\<close> whose capacity admits two elements (by
  \<open>DB_two_pairs_accepted\<close>, exactly when the four \<^verbatim>\<open>enqueue\<close> calls are accepted):
  after enqueue a, enqueue b, swap, enqueue c, enqueue d, swap, with no dequeue so far,
  the next dequeues return c, then d, then false; and whatever calls follow the second
  swap, every value a later dequeue returns is c, d, or a value enqueued after that swap.
  The first pair is gone.
\<close>

theorem premature_swap_discards:
  assumes "2 \<le> M"
  shows "fst (run DB_call
                [DBEnqueue a, DBEnqueue b, SwapBuffers, DBEnqueue c, DBEnqueue d, SwapBuffers,
                 DBDequeue, DBDequeue, DBDequeue]
                (DB_new M, item)) =
           [EnqueueRet True a, EnqueueRet True b, SwapRet,
            EnqueueRet True c, EnqueueRet True d, SwapRet,
            DequeueRet True c, DequeueRet True d, DequeueRet False d] \<and>
         set (dequeued (fst (run DB_call later
                (snd (run DB_call
                   [DBEnqueue a, DBEnqueue b, SwapBuffers, DBEnqueue c, DBEnqueue d, SwapBuffers]
                   (DB_new M, item))))))
           \<subseteq> {c, d} \<union> {y. DBEnqueue y \<in> set later}"
proof
  show "fst (run DB_call
                [DBEnqueue a, DBEnqueue b, SwapBuffers, DBEnqueue c, DBEnqueue d, SwapBuffers,
                 DBDequeue, DBDequeue, DBDequeue]
                (DB_new M, item)) =
           [EnqueueRet True a, EnqueueRet True b, SwapRet,
            EnqueueRet True c, EnqueueRet True d, SwapRet,
            DequeueRet True c, DequeueRet True d, DequeueRet False d]"
    using assms by (simp add: DB_new_def DB_enqueue_def DB_dequeue_def DB_swap_buffers_def)
next
  let ?q = "\<lparr>buffer1 = [], buffer2 = [c, d], write_buffer = Buffer1, read_buffer = Buffer2,
             buffer_swapped = True, write_index = 0, read_index = 0, db_max_size = M\<rparr>"
  have s: "snd (run DB_call
                   [DBEnqueue a, DBEnqueue b, SwapBuffers, DBEnqueue c, DBEnqueue d, SwapBuffers]
                   (DB_new M, item)) = (?q, item)"
    using assms by (simp add: DB_new_def DB_enqueue_def DB_swap_buffers_def)
  obtain es q' item' where r: "run DB_call later (?q, item) = (es, (q', item'))"
    by (metis prod.exhaust)
  from DB_run_source[OF r] have "set (dequeued es) \<subseteq> {c, d} \<union> {y. DBEnqueue y \<in> set later}"
    by auto
  then show "set (dequeued (fst (run DB_call later
                (snd (run DB_call
                   [DBEnqueue a, DBEnqueue b, SwapBuffers, DBEnqueue c, DBEnqueue d, SwapBuffers]
                   (DB_new M, item))))))
           \<subseteq> {c, d} \<union> {y. DBEnqueue y \<in> set later}"
    unfolding s r by simp
qed

theorem premature_swap_discards_witness:
  "(2::nat) \<le> 2 \<and>
   fst (run DB_call
          [DBEnqueue 1, DBEnqueue 2, SwapBuffers, DBEnqueue 3, DBEnqueue 4, SwapBuffers,
           DBDequeue, DBDequeue, DBDequeue]
          (DB_new 2, 0::nat)) =
     [EnqueueRet True 1, EnqueueRet True 2, SwapRet,
      EnqueueRet True 3, EnqueueRet True 4, SwapRet,
      DequeueRet True 3, DequeueRet True 4, DequeueRet False 4] \<and>
   set (dequeued (fst (run DB_call [DBDequeue, DBEnqueue 5, SwapBuffers, DBDequeue, DBDequeue]
          (snd (run DB_call
             [DBEnqueue 1, DBEnqueue 2, SwapBuffers, DBEnqueue 3, DBEnqueue 4, SwapBuffers]
             (DB_new 2, 0::nat))))))
     \<subseteq> {3, 4} \<union> {y. DBEnqueue y \<in> set [DBDequeue, DBEnqueue 5, SwapBuffers, DBDequeue, DBDequeue]}"
proof -
  have h: "(2::nat) \<le> 2" by simp
  from premature_swap_discards[OF h, of 1 2 3 4 0
      "[DBDequeue, DBEnqueue 5, SwapBuffers, DBDequeue, DBDequeue]"] h
  show ?thesis by blast
qed

text \<open>
  C5. On each of the three queues, \<^verbatim>\<open>dequeue\<close> on the freshly constructed queue
  returns false, leaves the output variable as it was, and leaves the queue as it was.
  The same holds after any run from the fresh queue in which as many elements were
  dequeued as were enqueued (for the double buffer: any run, disciplined or not).
\<close>

theorem dequeue_on_empty:
  "SPSC_dequeue S (SPSC_new mem) item = (False, item, SPSC_new mem) \<and>
   LQ_dequeue (LQ_new M) item = (False, item, LQ_new M) \<and>
   DB_dequeue (DB_new M) item = (False, item, DB_new M) \<and>
   (Size_ok S \<and> length mem = S \<and>
    run (SPSC_call S) cs (SPSC_new mem, item0) = (es1, (q1, item1)) \<and>
    length (dequeued es1) = length (enqueued es1) \<longrightarrow>
      SPSC_dequeue S q1 item = (False, item, q1)) \<and>
   (run LQ_call cs (LQ_new M, item0) = (es2, (q2, item2)) \<and>
    length (dequeued es2) = length (enqueued es2) \<longrightarrow>
      LQ_dequeue q2 item = (False, item, q2)) \<and>
   (run DB_call ds (DB_new M, item0) = (es3, (q3, item3)) \<and>
    length (dequeued es3) = length (enqueued es3) \<longrightarrow>
      DB_dequeue q3 item = (False, item, q3))"
proof (intro conjI impI)
  show "SPSC_dequeue S (SPSC_new mem) item = (False, item, SPSC_new mem)"
    by (simp add: SPSC_dequeue_def SPSC_new_def)
  show "LQ_dequeue (LQ_new M) item = (False, item, LQ_new M)"
    by (simp add: LQ_dequeue_def LQ_new_def)
  show "DB_dequeue (DB_new M) item = (False, item, DB_new M)"
    by (simp add: DB_dequeue_def DB_new_def)
next
  assume a: "Size_ok S \<and> length mem = S \<and>
    run (SPSC_call S) cs (SPSC_new mem, item0) = (es1, (q1, item1)) \<and>
    length (dequeued es1) = length (enqueued es1)"
  then have pos: "0 < S" by (simp add: Size_ok_def)
  from a have r: "run (SPSC_call S) cs (SPSC_new mem, item0) = (es1, (q1, item1))" by simp
  from SPSC_run_sim[OF _ SPSC_new_inv r] a pos
  have inv: "SPSC_inv S q1"
    and "run LQ_call cs (LQ_new (S - 1), item0) = (es1, (SPSC_abs S q1, item1))"
    by (simp_all add: SPSC_new_abs)
  from LQ_run_fifo[OF this(2)] have "enqueued es1 = dequeued es1 @ SPSC_contents S q1"
    by (simp add: LQ_new_def SPSC_abs_def)
  then have "length (enqueued es1) = length (dequeued es1) + length (SPSC_contents S q1)"
    by (metis length_append)
  with a have "SPSC_contents S q1 = []" by simp
  with SPSC_dequeue_sim(2,4)[OF _ inv, of item] a
  show "SPSC_dequeue S q1 item = (False, item, q1)"
    by (metis prod.collapse)
next
  assume a: "run LQ_call cs (LQ_new M, item0) = (es2, (q2, item2)) \<and>
    length (dequeued es2) = length (enqueued es2)"
  then have r: "run LQ_call cs (LQ_new M, item0) = (es2, (q2, item2))" by simp
  from LQ_run_fifo[OF r] have "enqueued es2 = dequeued es2 @ lq_queue q2"
    by (simp add: LQ_new_def)
  then have "length (enqueued es2) = length (dequeued es2) + length (lq_queue q2)"
    by (metis length_append)
  with a have "lq_queue q2 = []" by simp
  then show "LQ_dequeue q2 item = (False, item, q2)"
    by (simp add: LQ_dequeue_def)
next
  assume a: "run DB_call ds (DB_new M, item0) = (es3, (q3, item3)) \<and>
    length (dequeued es3) = length (enqueued es3)"
  then have r: "run DB_call ds (DB_new M, item0) = (es3, (q3, item3))" by simp
  from DB_run_count[OF DB_new_inv r]
  have "length (dequeued es3) + length (DB_pending q3) \<le> length (enqueued es3)"
    by (simp add: DB_new_def DB_pending_def)
  with a have "DB_pending q3 = []" by simp
  then have "length (deref q3 (read_buffer q3)) \<le> read_index q3"
    by (simp add: DB_pending_def)
  then show "DB_dequeue q3 item = (False, item, q3)"
    by (simp add: DB_dequeue_def Let_def)
qed

theorem dequeue_on_empty_witness:
  "Size_ok 4 \<and> length [0, 0, 0, 0::nat] = 4 \<and>
   run (SPSC_call 4) [Enqueue 1, Enqueue 2, Dequeue, Dequeue] (SPSC_new [0, 0, 0, 0::nat], 0) =
     ([EnqueueRet True 1, EnqueueRet True 2, DequeueRet True 1, DequeueRet True 2],
      (\<lparr>head = 2, tail = 2, buffer = [1, 2, 0, 0]\<rparr>, 2)) \<and>
   SPSC_dequeue 4 \<lparr>head = 2, tail = 2, buffer = [1, 2, 0, 0::nat]\<rparr> 9 =
     (False, 9, \<lparr>head = 2, tail = 2, buffer = [1, 2, 0, 0]\<rparr>) \<and>
   run LQ_call [Enqueue 1, Enqueue 2, Dequeue, Dequeue] (LQ_new 2, 0::nat) =
     ([EnqueueRet True 1, EnqueueRet True 2, DequeueRet True 1, DequeueRet True 2],
      (\<lparr>lq_queue = [], lq_max_size = 2\<rparr>, 2)) \<and>
   LQ_dequeue \<lparr>lq_queue = [], lq_max_size = 2\<rparr> (9::nat) =
     (False, 9, \<lparr>lq_queue = [], lq_max_size = 2\<rparr>) \<and>
   run DB_call [DBEnqueue 1, DBEnqueue 2, SwapBuffers, DBDequeue, DBDequeue] (DB_new 2, 0::nat) =
     ([EnqueueRet True 1, EnqueueRet True 2, SwapRet, DequeueRet True 1, DequeueRet True 2],
      (\<lparr>buffer1 = [1, 2], buffer2 = [], write_buffer = Buffer2, read_buffer = Buffer1,
        buffer_swapped = True, write_index = 0, read_index = 2, db_max_size = 2\<rparr>, 2)) \<and>
   DB_dequeue \<lparr>buffer1 = [1, 2], buffer2 = [], write_buffer = Buffer2, read_buffer = Buffer1,
        buffer_swapped = True, write_index = 0, read_index = 2, db_max_size = 2\<rparr> (9::nat) =
     (False, 9, \<lparr>buffer1 = [1, 2], buffer2 = [], write_buffer = Buffer2, read_buffer = Buffer1,
        buffer_swapped = True, write_index = 0, read_index = 2, db_max_size = 2\<rparr>)"
proof -
  let ?cs = "[Enqueue 1, Enqueue 2, Dequeue, Dequeue] :: nat call list"
  let ?ds = "[DBEnqueue 1, DBEnqueue 2, SwapBuffers, DBDequeue, DBDequeue] :: nat db_call list"
  let ?es = "[EnqueueRet True 1, EnqueueRet True 2, DequeueRet True 1, DequeueRet True 2]
             :: nat event list"
  let ?es3 = "[EnqueueRet True 1, EnqueueRet True 2, SwapRet, DequeueRet True 1,
               DequeueRet True 2] :: nat event list"
  let ?q1 = "\<lparr>head = 2, tail = 2, buffer = [1, 2, 0, 0::nat]\<rparr>"
  let ?q2 = "\<lparr>lq_queue = [] :: nat list, lq_max_size = 2\<rparr>"
  let ?q3 = "\<lparr>buffer1 = [1, 2::nat], buffer2 = [], write_buffer = Buffer2,
              read_buffer = Buffer1, buffer_swapped = True, write_index = 0, read_index = 2,
              db_max_size = 2\<rparr>"
  have h1: "Size_ok 4 \<and> length [0, 0, 0, 0::nat] = 4" by (simp add: Size_ok_def)
  have r1: "run (SPSC_call 4) ?cs (SPSC_new [0, 0, 0, 0::nat], 0) = (?es, (?q1, 2))"
    by code_simp
  have r2: "run LQ_call ?cs (LQ_new 2, 0::nat) = (?es, (?q2, 2))"
    by code_simp
  have r3: "run DB_call ?ds (DB_new 2, 0::nat) = (?es3, (?q3, 2))"
    by code_simp
  have l: "length (dequeued ?es) = length (enqueued ?es)"
    "length (dequeued ?es3) = length (enqueued ?es3)"
    by simp_all
  from dequeue_on_empty[where S = 4 and mem = "[0, 0, 0, 0]" and item = 9 and M = 2
      and cs = ?cs and ds = ?ds and ?item0.0 = 0 and ?es1.0 = ?es and ?q1.0 = ?q1 and ?item1.0 = 2
      and ?es2.0 = ?es and ?q2.0 = ?q2 and ?item2.0 = 2
      and ?es3.0 = ?es3 and ?q3.0 = ?q3 and ?item3.0 = 2] h1 r1 r2 r3 l
  have "SPSC_dequeue 4 ?q1 9 = (False, 9, ?q1)"
    and "LQ_dequeue ?q2 9 = (False, 9, ?q2)"
    and "DB_dequeue ?q3 9 = (False, 9, ?q3)"
    by blast+
  then show ?thesis using h1 r1 r2 r3 by simp
qed

text \<open>
  C8. In every state a \<^verbatim>\<open>SPSCLockFreeQueue\<close> of size \<open>S\<close> reaches from its
  constructor by \<^verbatim>\<open>enqueue\<close> and \<^verbatim>\<open>dequeue\<close> calls: head and tail are below
  \<open>S\<close>; \<^verbatim>\<open>empty()\<close> holds iff head equals tail, which is iff no enqueued element
  is still to be dequeued; \<^verbatim>\<open>full()\<close> holds iff \<open>(tail + 1) mod S\<close> equals head,
  which is iff the queue holds \<^verbatim>\<open>capacity()\<close> elements; and \<^verbatim>\<open>capacity()\<close> is
  \<open>S - 1\<close>.
\<close>

theorem SPSC_index_invariants:
  assumes "Size_ok S" "length mem = S"
    "run (SPSC_call S) cs (SPSC_new mem, item) = (es, (q, item'))"
  shows "head q < S \<and> tail q < S \<and>
         (SPSC_empty q \<longleftrightarrow> head q = tail q) \<and>
         (SPSC_empty q \<longleftrightarrow> length (enqueued es) = length (dequeued es)) \<and>
         (SPSC_full S q \<longleftrightarrow> (tail q + 1) mod S = head q) \<and>
         (SPSC_full S q \<longleftrightarrow> length (enqueued es) = length (dequeued es) + SPSC_capacity S) \<and>
         SPSC_capacity S = S - 1"
proof -
  from assms(1) have pos: "0 < S" by (simp add: Size_ok_def)
  from SPSC_run_sim[OF assms(1) SPSC_new_inv[OF assms(2) pos] assms(3)] pos
  have inv: "SPSC_inv S q"
    and "run LQ_call cs (LQ_new (S - 1), item) = (es, (SPSC_abs S q, item'))"
    by (simp_all add: SPSC_new_abs)
  from LQ_run_fifo[OF this(2)] have "enqueued es = dequeued es @ SPSC_contents S q"
    by (simp add: LQ_new_def SPSC_abs_def)
  then have len: "length (enqueued es) = length (dequeued es) + SPSC_count S q"
    by (metis length_append length_SPSC_contents)
  have "head q < S" "tail q < S" using inv by (simp_all add: SPSC_inv_def)
  moreover have "SPSC_empty q \<longleftrightarrow> head q = tail q" by (simp add: SPSC_empty_def)
  moreover have "SPSC_empty q \<longleftrightarrow> length (enqueued es) = length (dequeued es)"
    using SPSC_empty_count[OF inv] len by auto
  moreover have "SPSC_full S q \<longleftrightarrow> (tail q + 1) mod S = head q"
    by (simp add: SPSC_full_def and_MASK_mod[OF assms(1)])
  moreover have "SPSC_full S q \<longleftrightarrow> length (enqueued es) = length (dequeued es) + SPSC_capacity S"
    using SPSC_full_count[OF assms(1) inv] len by (auto simp: SPSC_capacity_def)
  moreover have "SPSC_capacity S = S - 1" by (simp add: SPSC_capacity_def)
  ultimately show ?thesis by blast
qed

theorem SPSC_index_invariants_witness:
  "Size_ok 4 \<and> length [0, 0, 0, 0::nat] = 4 \<and>
   run (SPSC_call 4) [Enqueue 1, Enqueue 2, Dequeue, Enqueue 3, Enqueue 4]
     (SPSC_new [0, 0, 0, 0::nat], 0) =
     ([EnqueueRet True 1, EnqueueRet True 2, DequeueRet True 1, EnqueueRet True 3,
       EnqueueRet True 4],
      (\<lparr>head = 1, tail = 0, buffer = [1, 2, 3, 4]\<rparr>, 1)) \<and>
   head \<lparr>head = 1, tail = 0, buffer = [1, 2, 3, 4::nat]\<rparr> < 4 \<and>
   tail \<lparr>head = 1, tail = 0, buffer = [1, 2, 3, 4::nat]\<rparr> < 4 \<and>
   \<not> SPSC_empty \<lparr>head = 1, tail = 0, buffer = [1, 2, 3, 4::nat]\<rparr> \<and>
   SPSC_full 4 \<lparr>head = 1, tail = 0, buffer = [1, 2, 3, 4::nat]\<rparr> \<and>
   SPSC_capacity 4 = 3"
proof -
  let ?cs = "[Enqueue 1, Enqueue 2, Dequeue, Enqueue 3, Enqueue 4] :: nat call list"
  let ?es = "[EnqueueRet True 1, EnqueueRet True 2, DequeueRet True 1, EnqueueRet True 3,
       EnqueueRet True 4] :: nat event list"
  let ?q = "\<lparr>head = 1, tail = 0, buffer = [1, 2, 3, 4::nat]\<rparr>"
  have h1: "Size_ok 4" by (simp add: Size_ok_def)
  have h2: "length [0, 0, 0, 0::nat] = 4" by simp
  have r: "run (SPSC_call 4) ?cs (SPSC_new [0, 0, 0, 0::nat], 0) = (?es, (?q, 1))"
    by code_simp
  have l: "length (enqueued ?es) = length (dequeued ?es) + SPSC_capacity 4"
    "length (enqueued ?es) \<noteq> length (dequeued ?es)"
    by (simp_all add: SPSC_capacity_def)
  from SPSC_index_invariants[OF h1 h2 r] l
  have "head ?q < 4" "tail ?q < 4" "\<not> SPSC_empty ?q" "SPSC_full 4 ?q" "SPSC_capacity 4 = 4 - 1"
    by blast+
  then show ?thesis using h1 h2 r by simp
qed

text \<open>
  C9. \<^verbatim>\<open>buffer_was_swapped()\<close> returns false on a fresh \<^verbatim>\<open>DoubleBufferSPSC\<close>.
  In any state, after \<^verbatim>\<open>swap_buffers()\<close> and any number of enqueues and dequeues,
  the next \<^verbatim>\<open>buffer_was_swapped()\<close> returns true. After a call of
  \<^verbatim>\<open>buffer_was_swapped()\<close> and any calls other than \<^verbatim>\<open>swap_buffers()\<close>, a further
  \<^verbatim>\<open>buffer_was_swapped()\<close> returns false.
\<close>

theorem buffer_was_swapped_one_shot:
  "fst (DB_buffer_was_swapped (DB_new M)) = False \<and>
   (SwapBuffers \<notin> set cs \<and> BufferWasSwapped \<notin> set cs \<longrightarrow>
      fst (DB_buffer_was_swapped
             (fst (snd (run DB_call cs (DB_swap_buffers q, item))))) = True) \<and>
   (SwapBuffers \<notin> set cs' \<longrightarrow>
      fst (DB_buffer_was_swapped
             (fst (snd (run DB_call cs' (snd (DB_buffer_was_swapped q), item))))) = False)"
proof (intro conjI impI)
  show "fst (DB_buffer_was_swapped (DB_new M)) = False"
    by (simp add: DB_buffer_was_swapped_def DB_new_def)
next
  assume "SwapBuffers \<notin> set cs \<and> BufferWasSwapped \<notin> set cs"
  then have "buffer_swapped (fst (snd (run DB_call cs (DB_swap_buffers q, item)))) =
      buffer_swapped (DB_swap_buffers q)"
    by (simp add: DB_run_flag_kept)
  then show "fst (DB_buffer_was_swapped
             (fst (snd (run DB_call cs (DB_swap_buffers q, item))))) = True"
    by (simp add: DB_buffer_was_swapped_def DB_swap_buffers_def Let_def)
next
  assume "SwapBuffers \<notin> set cs'"
  moreover have "\<not> buffer_swapped (snd (DB_buffer_was_swapped q))"
    by (simp add: DB_buffer_was_swapped_def)
  ultimately have "\<not> buffer_swapped
      (fst (snd (run DB_call cs' (snd (DB_buffer_was_swapped q), item))))"
    by (rule DB_run_flag_down)
  then show "fst (DB_buffer_was_swapped
             (fst (snd (run DB_call cs' (snd (DB_buffer_was_swapped q), item))))) = False"
    by (simp add: DB_buffer_was_swapped_def)
qed

theorem buffer_was_swapped_one_shot_witness:
  "SwapBuffers \<notin> set [DBEnqueue (1::nat), DBDequeue] \<and>
   BufferWasSwapped \<notin> set [DBEnqueue (1::nat), DBDequeue] \<and>
   fst (DB_buffer_was_swapped
          (fst (snd (run DB_call [DBEnqueue 1, DBDequeue]
                       (DB_swap_buffers (DB_new 4), 0::nat))))) = True \<and>
   SwapBuffers \<notin> set [DBEnqueue (1::nat), BufferWasSwapped, DBDequeue] \<and>
   fst (DB_buffer_was_swapped
          (fst (snd (run DB_call [DBEnqueue 1, BufferWasSwapped, DBDequeue]
                       (snd (DB_buffer_was_swapped (DB_swap_buffers (DB_new 4))), 0::nat))))) = False"
proof -
  have h1: "SwapBuffers \<notin> set [DBEnqueue (1::nat), DBDequeue] \<and>
            BufferWasSwapped \<notin> set [DBEnqueue (1::nat), DBDequeue]"
    by simp
  have h2: "SwapBuffers \<notin> set [DBEnqueue (1::nat), BufferWasSwapped, DBDequeue]"
    by simp
  from buffer_was_swapped_one_shot[of 4 "[DBEnqueue 1, DBDequeue]" "DB_new 4" 0
      "[DBEnqueue 1, BufferWasSwapped, DBDequeue]"] h1
    buffer_was_swapped_one_shot[of 4 "[DBEnqueue 1, DBDequeue]" "DB_swap_buffers (DB_new 4)" 0
      "[DBEnqueue 1, BufferWasSwapped, DBDequeue]"] h2
  show ?thesis by blast
qed

end
